theory Spec2Isabelle
  imports Main "HOL-Library.Sublist"
begin

section \<open>Rate limiter (lib/rateLimit.ts)\<close>

text \<open>
  The module keeps one mutable map \<open>requestCounts\<close> from client key to a record
  \<open>{count, resetTime}\<close>. The model passes the map explicitly; the clock read
  \<open>Date.now()\<close> is an input. Both numbers are integers (millisecond timestamps and a
  counter that stays far below \<open>2^53\<close>), so they are modelled as \<open>int\<close>.
\<close>

record rate_record =
  count :: int
  resetTime :: int

type_synonym requestCounts = "string \<rightharpoonup> rate_record"

definition RATE_LIMIT_WINDOW_MS :: int where
  "RATE_LIMIT_WINDOW_MS = 60000"

definition MAX_REQUESTS_PER_WINDOW :: int where
  "MAX_REQUESTS_PER_WINDOW = 100"

text \<open>
  \<open>checkRateLimit(ip)\<close>: the first branch is \<open>!record || now > record.resetTime\<close>, the
  second \<open>record.count >= MAX_REQUESTS_PER_WINDOW\<close>, the last one \<open>record.count++\<close> on
  the object held by the map.
\<close>

definition checkRateLimit :: "string \<Rightarrow> int \<Rightarrow> requestCounts \<Rightarrow> bool \<times> requestCounts" where
  "checkRateLimit ip now requestCounts =
     (case requestCounts ip of
        None \<Rightarrow>
          (True, requestCounts(ip \<mapsto> \<lparr>count = 1, resetTime = now + RATE_LIMIT_WINDOW_MS\<rparr>))
      | Some record \<Rightarrow>
          if now > resetTime record then
            (True, requestCounts(ip \<mapsto> \<lparr>count = 1, resetTime = now + RATE_LIMIT_WINDOW_MS\<rparr>))
          else if count record \<ge> MAX_REQUESTS_PER_WINDOW then
            (False, requestCounts)
          else
            (True, requestCounts(ip \<mapsto> record\<lparr>count := count record + 1\<rparr>)))"

text \<open>A sequence of calls \<open>(key, now)\<close>, made one after the other on the same map.\<close>

fun run_calls :: "(string \<times> int) list \<Rightarrow> requestCounts \<Rightarrow> bool list \<times> requestCounts" where
  "run_calls [] rc = ([], rc)"
| "run_calls ((ip, now) # cs) rc =
     (let (ok, rc1) = checkRateLimit ip now rc;
          (oks, rc2) = run_calls cs rc1
      in (ok # oks, rc2))"

text \<open>The answers given to the calls of one key, in order.\<close>

fun answers_for :: "string \<Rightarrow> (string \<times> int) list \<Rightarrow> requestCounts \<Rightarrow> bool list" where
  "answers_for b [] rc = []"
| "answers_for b ((ip, now) # cs) rc =
     (let (ok, rc1) = checkRateLimit ip now rc
      in (if ip = b then [ok] else []) @ answers_for b cs rc1)"

text \<open>No stored counter is ever above the limit.\<close>

definition counts_bounded :: "requestCounts \<Rightarrow> bool" where
  "counts_bounded rc \<longleftrightarrow> (\<forall>k r. rc k = Some r \<longrightarrow> count r \<le> MAX_REQUESTS_PER_WINDOW)"

section \<open>Client key (lib/rateLimit.ts, getClientIP)\<close>

text \<open>
  \<open>String.prototype.split\<close> with a one-character separator: the pieces between the
  separators, at least one piece.
\<close>

fun String_split :: "char \<Rightarrow> string \<Rightarrow> string list" where
  "String_split sep [] = [[]]"
| "String_split sep (c # cs) =
     (if c = sep then [] # String_split sep cs
      else case String_split sep cs of
             [] \<Rightarrow> [[c]]
           | piece # pieces \<Rightarrow> (c # piece) # pieces)"

text \<open>
  \<open>String.prototype.trim\<close> removes white space and line terminators from both ends;
  below code point 256 these are TAB, LF, VT, FF, CR, SPACE and NO-BREAK SPACE.
\<close>

definition isWhiteSpace :: "char \<Rightarrow> bool" where
  "isWhiteSpace c \<longleftrightarrow> (of_char c :: nat) \<in> {9, 10, 11, 12, 13, 32, 160}"

definition String_trim :: "string \<Rightarrow> string" where
  "String_trim s = rev (dropWhile isWhiteSpace (rev (dropWhile isWhiteSpace s)))"

datatype error = TypeError

text \<open>
  \<open>getClientIP\<close>, given the value of \<open>request.headers.get("x-forwarded-for")\<close>
  (\<open>None\<close> for \<open>null\<close>). The conditional tests the string's truthiness, so the empty
  string takes the \<open>"unknown"\<close> branch. Indexing an empty array with \<open>[0]\<close> gives
  \<open>undefined\<close>, on which \<open>.trim()\<close> throws.
\<close>

definition getClientIP :: "string option \<Rightarrow> error + string" where
  "getClientIP forwarded =
     (case forwarded of
        None \<Rightarrow> Inr ''unknown''
      | Some f \<Rightarrow>
          if f \<noteq> [] then
            (case String_split CHR '','' f of
               [] \<Rightarrow> Inl TypeError
             | first # others \<Rightarrow> Inr (String_trim first))
          else Inr ''unknown'')"

section \<open>Prefix index (lib/Trie.ts)\<close>

text \<open>
  Strings are lists of characters, one \<open>char\<close> per code point; the model covers the
  code points below 256. \<open>toLowerCase\<close> maps the upper-case letters of that range
  (\<open>A\<close>-\<open>Z\<close>, and U+00C0-U+00DE without U+00D7) to their lower-case
  partners, which are 32 code points higher, and keeps every other character.
\<close>

definition lower_char :: "char \<Rightarrow> char" where
  "lower_char c =
     (let n = (of_char c :: nat)
      in if (65 \<le> n \<and> n \<le> 90) \<or> (192 \<le> n \<and> n \<le> 222 \<and> n \<noteq> 215)
         then char_of (n + 32) else c)"

definition toLowerCase :: "string \<Rightarrow> string" where
  "toLowerCase s = map lower_char s"

text \<open>
  A JavaScript \<open>Map\<close> iterates in insertion order, and \<open>set\<close> on a key that is
  present replaces the value where it stands. The model is an association list with
  these three operations; \<open>values()\<close> is the list of second components, in order.
\<close>

definition Map_get :: "('k \<times> 'v) list \<Rightarrow> 'k \<Rightarrow> 'v option" where
  "Map_get m k = map_of m k"

definition Map_has :: "('k \<times> 'v) list \<Rightarrow> 'k \<Rightarrow> bool" where
  "Map_has m k \<longleftrightarrow> Map_get m k \<noteq> None"

fun Map_set :: "('k \<times> 'v) list \<Rightarrow> 'k \<Rightarrow> 'v \<Rightarrow> ('k \<times> 'v) list" where
  "Map_set [] k v = [(k, v)]"
| "Map_set ((k', v') # m) k v = (if k' = k then (k, v) # m else (k', v') # Map_set m k v)"

text \<open>\<open>interface TrieNode\<close>; the optional field \<open>word\<close> is an option.\<close>

datatype TrieNode =
  TrieNode (children: "(char \<times> TrieNode) list") (isEndOfWord: bool) (word: "string option")

datatype Trie = Trie (root: TrieNode)

definition Trie_new :: Trie where
  "Trie_new = Trie (TrieNode [] False None)"

text \<open>
  The loop of \<open>insert\<close> over the characters of \<open>lowerWord\<close>, followed by the two
  assignments to the node it ends at. The source mutates the nodes in place; the model
  rebuilds the path, putting each changed child back under its key, which keeps the
  key's position in the map. The non-null assertion \<open>get(char)!\<close> is the \<open>Some\<close>
  branch; the \<open>None\<close> branch cannot be reached (lemma \<open>insert_path_Cons\<close>).
\<close>

fun insert_path :: "string \<Rightarrow> string \<Rightarrow> TrieNode \<Rightarrow> TrieNode" where
  "insert_path [] w node = TrieNode (children node) True (Some w)"
| "insert_path (c # cs) w node =
     (let children1 = (if \<not> Map_has (children node) c
                       then Map_set (children node) c (TrieNode [] False None)
                       else children node)
      in case Map_get children1 c of
           None \<Rightarrow> node
         | Some child \<Rightarrow>
             TrieNode (Map_set children1 c (insert_path cs w child))
               (isEndOfWord node) (word node))"

definition Trie_insert :: "string \<Rightarrow> Trie \<Rightarrow> Trie" where
  "Trie_insert w t =
     (if w = [] then t else Trie (insert_path (toLowerCase w) w (root t)))"

fun Trie_buildFromArray :: "string list \<Rightarrow> Trie \<Rightarrow> Trie" where
  "Trie_buildFromArray [] t = t"
| "Trie_buildFromArray (w # ws) t = Trie_buildFromArray ws (Trie_insert w t)"

text \<open>
  The descent loop shared by \<open>search\<close> and \<open>contains\<close>: \<open>None\<close> when a character
  has no child (where the source returns early).
\<close>

fun descend :: "string \<Rightarrow> TrieNode \<Rightarrow> TrieNode option" where
  "descend [] node = Some node"
| "descend (c # cs) node =
     (case Map_get (children node) c of
        None \<Rightarrow> None
      | Some child \<Rightarrow> descend cs child)"

text \<open>
  \<open>_dfs\<close>: the array \<open>results\<close> is passed and returned; the second function is the
  \<open>for\<close> loop over \<open>node.children.values()\<close> with its \<open>break\<close>. The test
  \<open>node.isEndOfWord && node.word\<close> needs a word that is present and not empty.
\<close>

fun Trie_dfs :: "TrieNode \<Rightarrow> string list \<Rightarrow> int \<Rightarrow> string list"
  and dfs_children :: "(char \<times> TrieNode) list \<Rightarrow> string list \<Rightarrow> int \<Rightarrow> string list" where
  "Trie_dfs (TrieNode cs e w) results maxResults =
     (if int (length results) \<ge> maxResults then results
      else
        let results1 = (case w of
                          Some wd \<Rightarrow> if e \<and> wd \<noteq> [] then results @ [wd] else results
                        | None \<Rightarrow> results)
        in dfs_children cs results1 maxResults)"
| "dfs_children [] results maxResults = results"
| "dfs_children ((c, child) # rest) results maxResults =
     (let results1 = Trie_dfs child results maxResults
      in if int (length results1) \<ge> maxResults then results1
         else dfs_children rest results1 maxResults)"

definition Trie_search :: "string \<Rightarrow> int \<Rightarrow> Trie \<Rightarrow> string list" where
  "Trie_search pre maxResults t =
     (if pre = [] then []
      else case descend (toLowerCase pre) (root t) of
             None \<Rightarrow> []
           | Some node \<Rightarrow> Trie_dfs node [] maxResults)"

text \<open>\<open>_countWords\<close> returns the count it was given plus the terminal nodes below.\<close>

fun Trie_countWords :: "TrieNode \<Rightarrow> int \<Rightarrow> int"
  and countWords_children :: "(char \<times> TrieNode) list \<Rightarrow> int \<Rightarrow> int" where
  "Trie_countWords (TrieNode cs e w) count' =
     countWords_children cs (if e then count' + 1 else count')"
| "countWords_children [] count' = count'"
| "countWords_children ((c, child) # rest) count' =
     countWords_children rest (Trie_countWords child count')"

text \<open>
  \<open>getSize\<close>: \<open>let count = 0; this._countWords(this.root, count); return count\<close>.
  The number is passed by value and the value of the call is dropped.
\<close>

definition Trie_getSize :: "Trie \<Rightarrow> int" where
  "Trie_getSize t =
     (let count' = 0;
          dropped = Trie_countWords (root t) count'
      in count')"

definition Trie_contains :: "string \<Rightarrow> Trie \<Rightarrow> bool" where
  "Trie_contains w t =
     (if w = [] then False
      else case descend (toLowerCase w) (root t) of
             None \<Rightarrow> False
           | Some node \<Rightarrow> isEndOfWord node)"

subsection \<open>What the index stores\<close>

text \<open>The original form stored for a lower-case key: the word of the terminal node at that path.\<close>

definition Trie_stored :: "Trie \<Rightarrow> string \<Rightarrow> string option" where
  "Trie_stored t key =
     (case descend key (root t) of
        None \<Rightarrow> None
      | Some node \<Rightarrow> if isEndOfWord node then word node else None)"

text \<open>
  The specification's traversal: every terminal node's word below a node, in pre-order,
  children in map order, with no bound on the number of results.
\<close>

fun preorder :: "TrieNode \<Rightarrow> string list"
  and preorder_children :: "(char \<times> TrieNode) list \<Rightarrow> string list" where
  "preorder (TrieNode cs e w) =
     (case w of Some wd \<Rightarrow> if e \<and> wd \<noteq> [] then [wd] else [] | None \<Rightarrow> [])
     @ preorder_children cs"
| "preorder_children [] = []"
| "preorder_children ((c, child) # rest) = preorder child @ preorder_children rest"

text \<open>
  The traversal from the node that a prefix leads to (nothing when there is no such
  node), and the number of entries that come before \<open>w\<close> in a traversal.
\<close>

definition traversal :: "Trie \<Rightarrow> string \<Rightarrow> string list" where
  "traversal t p =
     (case descend (toLowerCase p) (root t) of
        None \<Rightarrow> []
      | Some node \<Rightarrow> preorder node)"

definition preceding :: "string list \<Rightarrow> string \<Rightarrow> nat" where
  "preceding xs w = length (takeWhile (\<lambda>x. x \<noteq> w) xs)"

text \<open>
  The invariant of a node reached by \<open>path\<close>: keys are unique, a terminal node holds a
  non-empty word whose lower-case form is its path, and the children satisfy the same.
\<close>

fun wf_node :: "string \<Rightarrow> TrieNode \<Rightarrow> bool" where
  "wf_node path (TrieNode cs e w) \<longleftrightarrow>
     distinct (map fst cs)
     \<and> (e \<longrightarrow> (case w of None \<Rightarrow> False | Some wd \<Rightarrow> wd \<noteq> [] \<and> toLowerCase wd = path))
     \<and> (\<forall>(c, ch) \<in> set cs. wf_node (path @ [c]) ch)"

text \<open>The number of terminal nodes at and below a node.\<close>

fun terminals :: "TrieNode \<Rightarrow> nat"
  and terminals_children :: "(char \<times> TrieNode) list \<Rightarrow> nat" where
  "terminals (TrieNode cs e w) = (if e then 1 else 0) + terminals_children cs"
| "terminals_children [] = 0"
| "terminals_children ((c, child) # rest) = terminals child + terminals_children rest"

section \<open>Rate limiter: lemmas\<close>

lemma checkRateLimit_fresh:
  "rc k = None \<Longrightarrow>
   checkRateLimit k now rc = (True, rc(k \<mapsto> \<lparr>count = 1, resetTime = now + 60000\<rparr>))"
  by (simp add: checkRateLimit_def RATE_LIMIT_WINDOW_MS_def)

lemma checkRateLimit_expired:
  "rc k = Some r \<Longrightarrow> now > resetTime r \<Longrightarrow>
   checkRateLimit k now rc = (True, rc(k \<mapsto> \<lparr>count = 1, resetTime = now + 60000\<rparr>))"
  by (simp add: checkRateLimit_def RATE_LIMIT_WINDOW_MS_def)

lemma checkRateLimit_increment:
  "rc k = Some r \<Longrightarrow> \<not> now > resetTime r \<Longrightarrow> count r < 100 \<Longrightarrow>
   checkRateLimit k now rc = (True, rc(k \<mapsto> r\<lparr>count := count r + 1\<rparr>))"
  by (simp add: checkRateLimit_def MAX_REQUESTS_PER_WINDOW_def)

lemma checkRateLimit_reject:
  "rc k = Some r \<Longrightarrow> \<not> now > resetTime r \<Longrightarrow> \<not> count r < 100 \<Longrightarrow>
   checkRateLimit k now rc = (False, rc)"
  by (simp add: checkRateLimit_def MAX_REQUESTS_PER_WINDOW_def)

lemma checkRateLimit_other_key:
  "a \<noteq> b \<Longrightarrow> snd (checkRateLimit a now rc) b = rc b"
  by (simp add: checkRateLimit_def split: option.splits)

lemma checkRateLimit_depends_on_own_record:
  "rc b = rc' b \<Longrightarrow> fst (checkRateLimit b now rc) = fst (checkRateLimit b now rc')"
  by (simp add: checkRateLimit_def split: option.splits)

lemma checkRateLimit_own_record:
  "rc b = rc' b \<Longrightarrow> snd (checkRateLimit b now rc) b = snd (checkRateLimit b now rc') b"
  by (simp add: checkRateLimit_def split: option.splits)

text \<open>\<open>m\<close> further calls for one key inside its running window.\<close>

lemma run_calls_within_window:
  "rc k = Some r \<Longrightarrow> \<not> now > resetTime r \<Longrightarrow> count r + int m \<le> 100 \<Longrightarrow>
   run_calls (replicate m (k, now)) rc =
     (replicate m True, rc(k \<mapsto> r\<lparr>count := count r + int m\<rparr>))"
proof (induction m arbitrary: rc r)
  case 0
  then have "rc(k \<mapsto> r) = rc" by (simp add: map_upd_triv)
  then show ?case by simp
next
  case (Suc m)
  let ?r1 = "r\<lparr>count := count r + 1\<rparr>"
  let ?rc1 = "rc(k \<mapsto> ?r1)"
  have step: "checkRateLimit k now rc = (True, ?rc1)"
    using Suc.prems by (simp add: checkRateLimit_increment)
  have "run_calls (replicate m (k, now)) ?rc1 =
          (replicate m True, ?rc1(k \<mapsto> ?r1\<lparr>count := count ?r1 + int m\<rparr>))"
    using Suc.prems by (intro Suc.IH) simp_all
  moreover have "?r1\<lparr>count := count ?r1 + int m\<rparr> = r\<lparr>count := count r + int (Suc m)\<rparr>"
    by (simp add: algebra_simps)
  ultimately have rest: "run_calls (replicate m (k, now)) ?rc1 =
          (replicate m True, rc(k \<mapsto> r\<lparr>count := count r + int (Suc m)\<rparr>))"
    by (simp only: fun_upd_upd)
  have "run_calls (replicate (Suc m) (k, now)) rc =
          (True # replicate m True, rc(k \<mapsto> r\<lparr>count := count r + int (Suc m)\<rparr>))"
    by (simp only: replicate_Suc run_calls.simps step rest Let_def split_conv)
  then show ?case by (simp only: replicate_Suc)
qed

text \<open>\<open>Suc n\<close> calls for one key at one instant, the first of which opens a window.\<close>

lemma run_calls_same_instant:
  assumes start: "rc k = None \<or> (\<exists>r. rc k = Some r \<and> now > resetTime r)"
    and n: "n \<le> 99"
  shows "run_calls (replicate (Suc n) (k, now)) rc =
           (replicate (Suc n) True,
            rc(k \<mapsto> \<lparr>count = 1 + int n, resetTime = now + 60000\<rparr>))"
proof -
  let ?r1 = "\<lparr>count = 1, resetTime = now + 60000\<rparr>"
  have first: "checkRateLimit k now rc = (True, rc(k \<mapsto> ?r1))"
    using start checkRateLimit_fresh checkRateLimit_expired by blast
  have "run_calls (replicate n (k, now)) (rc(k \<mapsto> ?r1)) =
          (replicate n True, (rc(k \<mapsto> ?r1))(k \<mapsto> ?r1\<lparr>count := count ?r1 + int n\<rparr>))"
    using n by (intro run_calls_within_window) simp_all
  then show ?thesis
    using first by simp
qed

text \<open>Calls for other keys are invisible to a key: its answers depend on its own record only.\<close>

lemma run_calls_other_key:
  "a \<noteq> b \<Longrightarrow> snd (run_calls (map (Pair a) ts) rc) b = rc b"
proof (induction ts arbitrary: rc)
  case Nil
  then show ?case by simp
next
  case (Cons t ts)
  obtain ok rc1 where step: "checkRateLimit a t rc = (ok, rc1)"
    by (cases "checkRateLimit a t rc")
  have "rc1 b = rc b"
    using checkRateLimit_other_key [OF Cons.prems, of t rc] step by simp
  moreover have "snd (run_calls (map (Pair a) ts) rc1) b = rc1 b"
    using Cons.IH [OF Cons.prems] .
  ultimately show ?case
    using step by (simp add: split_def Let_def)
qed

lemma answers_for_without:
  "a \<noteq> b \<Longrightarrow> rc b = rc' b \<Longrightarrow>
   answers_for b calls rc = answers_for b (filter (\<lambda>(k, t). k \<noteq> a) calls) rc'"
proof (induction calls arbitrary: rc rc')
  case Nil
  then show ?case by simp
next
  case (Cons c calls)
  obtain ip now where c: "c = (ip, now)" by (cases c)
  obtain ok rc1 where step: "checkRateLimit ip now rc = (ok, rc1)"
    by (cases "checkRateLimit ip now rc")
  show ?case
  proof (cases "ip = a")
    case True
    then have "rc1 b = rc' b"
      using checkRateLimit_other_key [OF Cons.prems(1), of now rc] step Cons.prems(2) by simp
    then have "answers_for b calls rc1 = answers_for b (filter (\<lambda>(k, t). k \<noteq> a) calls) rc'"
      using Cons.IH [OF Cons.prems(1)] by blast
    then show ?thesis
      using True c step Cons.prems(1) by simp
  next
    case False
    obtain ok' rc1' where step': "checkRateLimit ip now rc' = (ok', rc1')"
      by (cases "checkRateLimit ip now rc'")
    have same: "rc1 b = rc1' b \<and> (ip = b \<longrightarrow> ok = ok')"
    proof (cases "ip = b")
      case True
      then show ?thesis
            using checkRateLimit_own_record [of rc b rc' now]
          checkRateLimit_depends_on_own_record [of rc b rc' now] step step' Cons.prems(2)
        by simp
    next
      case other: False
      then show ?thesis
        using checkRateLimit_other_key [of ip b now rc] checkRateLimit_other_key [of ip b now rc']
          step step' Cons.prems(2)
        by simp
    qed
    then have "answers_for b calls rc1 = answers_for b (filter (\<lambda>(k, t). k \<noteq> a) calls) rc1'"
      using Cons.IH [OF Cons.prems(1)] by blast
    then show ?thesis
      using False c step step' same by simp
  qed
qed

lemma counts_bounded_checkRateLimit:
  "counts_bounded rc \<Longrightarrow> counts_bounded (snd (checkRateLimit k now rc))"
  by (auto simp: counts_bounded_def checkRateLimit_def MAX_REQUESTS_PER_WINDOW_def
      split: option.splits if_splits)

lemma counts_bounded_run_calls:
  "counts_bounded rc \<Longrightarrow> counts_bounded (snd (run_calls calls rc))"
proof (induction calls arbitrary: rc)
  case Nil
  then show ?case by simp
next
  case (Cons c calls)
  obtain ip now where c: "c = (ip, now)" by (cases c)
  have "counts_bounded (snd (checkRateLimit ip now rc))"
    using Cons.prems by (rule counts_bounded_checkRateLimit)
  then have "counts_bounded (snd (run_calls calls (snd (checkRateLimit ip now rc))))"
    by (rule Cons.IH)
  then show ?case
    using c by (simp add: split_def Let_def)
qed

section \<open>Client key: lemmas\<close>

lemma String_split_first:
  "\<exists>pieces. String_split sep s = takeWhile (\<lambda>c. c \<noteq> sep) s # pieces"
  by (induction s) auto

lemma String_trim_spec:
  "\<exists>a b. s = a @ String_trim s @ b
     \<and> list_all isWhiteSpace a \<and> list_all isWhiteSpace b
     \<and> (String_trim s = [] \<or>
         \<not> (isWhiteSpace (hd (String_trim s)) \<or> isWhiteSpace (last (String_trim s))))"
proof -
  let ?a = "takeWhile isWhiteSpace s"
  let ?s' = "dropWhile isWhiteSpace s"
  let ?b = "rev (takeWhile isWhiteSpace (rev ?s'))"
  let ?r = "String_trim s"
  have r: "?r = rev (dropWhile isWhiteSpace (rev ?s'))" by (simp add: String_trim_def)
  have "rev ?s' = takeWhile isWhiteSpace (rev ?s') @ dropWhile isWhiteSpace (rev ?s')"
    by simp
  then have "rev (rev ?s') = rev (takeWhile isWhiteSpace (rev ?s') @ dropWhile isWhiteSpace (rev ?s'))"
    by (rule arg_cong)
  then have s': "?s' = ?r @ ?b"
    unfolding r by (simp only: rev_rev_ident rev_append)
  have s: "s = ?a @ ?r @ ?b"
    using s' takeWhile_dropWhile_id [of isWhiteSpace s] by simp
  have wa: "list_all isWhiteSpace ?a"
    by (auto simp: list_all_iff dest: set_takeWhileD)
  have wb: "list_all isWhiteSpace ?b"
    by (auto simp: list_all_iff dest: set_takeWhileD)
  have ends: "\<not> isWhiteSpace (hd ?r) \<and> \<not> isWhiteSpace (last ?r)" if ne: "?r \<noteq> []"
  proof
    have "?r @ ?b \<noteq> []" using ne by blast
    with s' have "?s' \<noteq> []" by metis
    then have "\<not> isWhiteSpace (hd ?s')" by (rule hd_dropWhile)
    moreover have "hd ?s' = hd ?r" using s' ne by (metis hd_append2)
    ultimately show "\<not> isWhiteSpace (hd ?r)" by simp
    have "dropWhile isWhiteSpace (rev ?s') \<noteq> []" using ne r by simp
    then have "\<not> isWhiteSpace (hd (dropWhile isWhiteSpace (rev ?s')))" by (rule hd_dropWhile)
    moreover have "last ?r = hd (dropWhile isWhiteSpace (rev ?s'))"
      unfolding r by (simp add: last_rev)
    ultimately show "\<not> isWhiteSpace (last ?r)" by simp
  qed
  show ?thesis using s wa wb ends by blast
qed

section \<open>Prefix index: lemmas\<close>

lemma toLowerCase_Nil [simp]: "toLowerCase [] = []"
  by (simp add: toLowerCase_def)

lemma toLowerCase_eq_Nil [simp]: "toLowerCase w = [] \<longleftrightarrow> w = []"
  by (simp add: toLowerCase_def)

lemma Nil_eq_toLowerCase [simp]: "[] = toLowerCase w \<longleftrightarrow> w = []"
  by (auto simp: toLowerCase_def)

lemma Map_get_set_same: "Map_get (Map_set m k v) k = Some v"
  by (induction m) (auto simp: Map_get_def)

lemma Map_set_set: "Map_set (Map_set m k v) k v' = Map_set m k v'"
  by (induction m) auto

lemma Map_set_subset: "set (Map_set m k v) \<subseteq> insert (k, v) (set m)"
  by (induction m) (auto split: if_splits)

lemma Map_set_keys:
  "map fst (Map_set m k v) = (if k \<in> fst ` set m then map fst m else map fst m @ [k])"
  by (induction m) force+

lemma distinct_Map_set: "distinct (map fst m) \<Longrightarrow> distinct (map fst (Map_set m k v))"
  by (simp add: Map_set_keys)

lemma Map_get_mem: "Map_get m k = Some v \<Longrightarrow> (k, v) \<in> set m"
  by (simp add: Map_get_def map_of_SomeD)

lemma Map_get_distinct: "distinct (map fst m) \<Longrightarrow> (k, v) \<in> set m \<Longrightarrow> Map_get m k = Some v"
  by (simp add: Map_get_def)

text \<open>One step of the insertion loop; the unreachable branch is gone.\<close>

lemma insert_path_Cons:
  "insert_path (c # cs) w node =
     TrieNode
       (Map_set (children node) c
          (insert_path cs w
             (case Map_get (children node) c of
                None \<Rightarrow> TrieNode [] False None
              | Some child \<Rightarrow> child)))
       (isEndOfWord node) (word node)"
  by (cases "Map_get (children node) c")
     (simp_all add: Map_has_def Map_get_set_same Map_set_set)

lemma descend_insert_path:
  "\<exists>n. descend cs (insert_path cs w node) = Some n \<and> isEndOfWord n \<and> word n = Some w"
proof (induction cs arbitrary: node)
  case Nil
  show ?case by simp
next
  case (Cons c cs)
  show ?case
    unfolding insert_path_Cons using Cons.IH by (simp add: Map_get_set_same)
qed

lemma descend_append:
  "descend (xs @ ys) node = (case descend xs node of None \<Rightarrow> None | Some n \<Rightarrow> descend ys n)"
  by (induction xs arbitrary: node) (auto split: option.splits)


lemma wf_insert_path:
  "wf_node path node \<Longrightarrow> w \<noteq> [] \<Longrightarrow> toLowerCase w = path @ cs \<Longrightarrow>
   wf_node path (insert_path cs w node)"
proof (induction cs arbitrary: path node)
  case Nil
  then show ?case by (cases node) simp
next
  case (Cons c cs)
  obtain ch e wd where node: "node = TrieNode ch e wd" by (cases node)
  let ?child = "case Map_get ch c of None \<Rightarrow> TrieNode [] False None | Some child \<Rightarrow> child"
  have "wf_node (path @ [c]) ?child"
  proof (cases "Map_get ch c")
    case None
    then show ?thesis by simp
  next
    case (Some child)
    then have "(c, child) \<in> set ch" by (rule Map_get_mem)
    then show ?thesis using Cons.prems(1) Some node by auto
  qed
  then have child': "wf_node (path @ [c]) (insert_path cs w ?child)"
    using Cons.prems(2,3) by (intro Cons.IH) simp_all
  have keys: "distinct (map fst (Map_set ch c (insert_path cs w ?child)))"
    using Cons.prems(1) node by (simp add: distinct_Map_set)
  have "\<forall>(c', ch') \<in> set (Map_set ch c (insert_path cs w ?child)). wf_node (path @ [c']) ch'"
    using Map_set_subset [of ch c "insert_path cs w ?child"] child' Cons.prems(1) node
    by auto
  then show ?case
    unfolding insert_path_Cons using keys Cons.prems(1) node by simp
qed

lemma wf_Trie_insert:
  "wf_node [] (root t) \<Longrightarrow> wf_node [] (root (Trie_insert w t))"
  by (simp add: Trie_insert_def wf_insert_path)

lemma wf_Trie_buildFromArray:
  "wf_node [] (root t) \<Longrightarrow> wf_node [] (root (Trie_buildFromArray ws t))"
  by (induction ws arbitrary: t) (simp_all add: wf_Trie_insert)

lemma wf_built: "wf_node [] (root (Trie_buildFromArray ws Trie_new))"
  by (rule wf_Trie_buildFromArray) (simp add: Trie_new_def)

lemma wf_descend:
  "wf_node path node \<Longrightarrow> descend key node = Some n \<Longrightarrow> wf_node (path @ key) n"
proof (induction key arbitrary: path node)
  case Nil
  then show ?case by simp
next
  case (Cons c key)
  obtain ch e wd where node: "node = TrieNode ch e wd" by (cases node)
  from Cons.prems(2) node obtain child where
    child: "Map_get ch c = Some child" and rest: "descend key child = Some n"
    by (auto split: option.splits)
  have "(c, child) \<in> set ch" using child by (rule Map_get_mem)
  then have "wf_node (path @ [c]) child" using Cons.prems(1) node by auto
  then have "wf_node ((path @ [c]) @ key) n" using rest by (rule Cons.IH)
  then show ?case by simp
qed

text \<open>The bounded traversal is a prefix of the unbounded one.\<close>

lemma dfs_take:
  "Trie_dfs node res m = res @ take (nat m - length res) (preorder node)"
  "dfs_children cs res m = res @ take (nat m - length res) (preorder_children cs)"
proof (induction node res m and cs res m rule: Trie_dfs_dfs_children.induct)
  case (1 cs e w results maxResults)
  show ?case
  proof (cases "int (length results) \<ge> maxResults")
    case True
    then show ?thesis by simp
  next
    case False
    then have pos: "nat maxResults - length results = Suc (nat maxResults - length results - 1)"
      by linarith
    show ?thesis
    proof (cases "\<exists>wd. w = Some wd \<and> e \<and> wd \<noteq> []")
      case True
      then obtain wd where wd: "w = Some wd" "e" "wd \<noteq> []" by blast
      have "dfs_children cs (results @ [wd]) maxResults =
            (results @ [wd]) @ take (nat maxResults - length (results @ [wd])) (preorder_children cs)"
        using "1.IH" [OF False, of "results @ [wd]"] wd by simp
      moreover have "take (nat maxResults - length results) (wd # preorder_children cs) =
            wd # take (nat maxResults - length (results @ [wd])) (preorder_children cs)"
        by (subst pos) simp
      ultimately show ?thesis using False wd by simp
    next
      case no: False
      then have same: "(case w of Some wd \<Rightarrow> if e \<and> wd \<noteq> [] then results @ [wd] else results
                        | None \<Rightarrow> results) = results"
        by (auto split: option.splits)
      have pre: "(case w of Some wd \<Rightarrow> if e \<and> wd \<noteq> [] then [wd] else [] | None \<Rightarrow> []) = []"
        using no by (auto split: option.splits)
      have "dfs_children cs results maxResults =
            results @ take (nat maxResults - length results) (preorder_children cs)"
        using "1.IH" [OF False, of results] same by simp
      then show ?thesis using False same pre by simp
    qed
  qed
next
  case (2 results maxResults)
  show ?case by simp
next
  case (3 c child rest results maxResults)
  let ?k = "nat maxResults - length results"
  let ?r1 = "Trie_dfs child results maxResults"
  have r1: "?r1 = results @ take ?k (preorder child)" by (rule "3.IH"(1))
  show ?case
  proof (cases "int (length ?r1) \<ge> maxResults")
    case True
    then have "?k \<le> length (preorder child)"
      using r1 by (simp add: min_def split: if_splits; linarith?)
    then show ?thesis using True r1 by simp
  next
    case False
    then have short: "length (preorder child) < ?k"
      using r1 by (simp add: min_def split: if_splits; linarith?)
    have "dfs_children rest ?r1 maxResults =
          ?r1 @ take (nat maxResults - length ?r1) (preorder_children rest)"
      using "3.IH"(2) [OF refl False] .
    moreover have "nat maxResults - length ?r1 = ?k - length (preorder child)"
      using short r1 by simp
    ultimately show ?thesis using False r1 short by simp
  qed
qed

lemma Trie_search_take:
  "Trie_search p m t =
     (if p = [] then []
      else case descend (toLowerCase p) (root t) of
             None \<Rightarrow> []
           | Some node \<Rightarrow> take (nat m) (preorder node))"
  by (simp add: Trie_search_def dfs_take split: option.splits)


text \<open>Which words the unbounded traversal lists.\<close>

lemma preorder_children_mem:
  "r \<in> set (preorder_children cs) \<longleftrightarrow> (\<exists>(c, ch) \<in> set cs. r \<in> set (preorder ch))"
  by (induction cs) auto

lemma preorder_mem:
  "r \<in> set (preorder (TrieNode cs e w)) \<longleftrightarrow>
     (e \<and> w = Some r \<and> r \<noteq> []) \<or> (\<exists>(c, ch) \<in> set cs. r \<in> set (preorder ch))"
  by (auto simp: preorder_children_mem split: option.splits)

lemma preorder_sound:
  "wf_node path node \<Longrightarrow> r \<in> set (preorder node) \<Longrightarrow>
   \<exists>key n. toLowerCase r = path @ key \<and> descend key node = Some n
     \<and> isEndOfWord n \<and> word n = Some r"
proof (induction path node rule: wf_node.induct)
  case (1 path cs e w)
  from "1.prems"(2) consider
    (own) "e" "w = Some r" "r \<noteq> []"
    | (below) c ch where "(c, ch) \<in> set cs" "r \<in> set (preorder ch)"
    unfolding preorder_mem by blast
  then show ?case
  proof cases
    case own
    then have "toLowerCase r = path @ []" using "1.prems"(1) by simp
    moreover have "descend [] (TrieNode cs e w) = Some (TrieNode cs e w)" by simp
    ultimately show ?thesis using own by (metis TrieNode.sel(2,3))
  next
    case below
    have "wf_node (path @ [c]) ch" using "1.prems"(1) below(1) by auto
    then obtain key n where key: "toLowerCase r = (path @ [c]) @ key"
      "descend key ch = Some n" "isEndOfWord n" "word n = Some r"
      using "1.IH" [OF below(1) refl] below(2) by blast
    have "Map_get cs c = Some ch"
      using "1.prems"(1) below(1) by (simp add: Map_get_distinct)
    then have "descend (c # key) (TrieNode cs e w) = Some n" using key(2) by simp
    moreover have "toLowerCase r = path @ c # key" using key(1) by simp
    ultimately show ?thesis using key(3,4) by blast
  qed
qed

lemma preorder_complete:
  "descend key node = Some n \<Longrightarrow> isEndOfWord n \<Longrightarrow> word n = Some r \<Longrightarrow> r \<noteq> [] \<Longrightarrow>
   r \<in> set (preorder node)"
proof (induction key arbitrary: node)
  case Nil
  then show ?case by (cases node) (auto split: option.splits)
next
  case (Cons c key)
  obtain cs e w where node: "node = TrieNode cs e w" by (cases node)
  from Cons.prems(1) node obtain child where
    child: "Map_get cs c = Some child" and rest: "descend key child = Some n"
    by (auto split: option.splits)
  have "r \<in> set (preorder child)" using rest Cons.prems(2,3,4) by (rule Cons.IH)
  moreover have "(c, child) \<in> set cs" using child by (rule Map_get_mem)
  ultimately show ?case unfolding node preorder_mem by blast
qed

lemma distinct_preorder_children:
  "distinct (map fst cs) \<Longrightarrow>
   (\<forall>(c, ch) \<in> set cs. wf_node (path @ [c]) ch \<and> distinct (preorder ch)) \<Longrightarrow>
   distinct (preorder_children cs)"
proof (induction cs)
  case Nil
  show ?case by simp
next
  case (Cons x cs)
  obtain c ch where x: "x = (c, ch)" by (cases x)
  have rest: "distinct (preorder_children cs)" using Cons by simp
  have here: "distinct (preorder ch)" and wf: "wf_node (path @ [c]) ch"
    using Cons.prems(2) x by auto
  have "set (preorder ch) \<inter> set (preorder_children cs) = {}"
  proof (rule ccontr)
    assume "set (preorder ch) \<inter> set (preorder_children cs) \<noteq> {}"
    then obtain r c' ch' where r: "r \<in> set (preorder ch)" "(c', ch') \<in> set cs"
      "r \<in> set (preorder ch')"
      by (auto simp: preorder_children_mem)
    have "wf_node (path @ [c']) ch'" using Cons.prems(2) r(2) by auto
    then obtain key' where "toLowerCase r = (path @ [c']) @ key'"
      using preorder_sound r(3) by blast
    moreover obtain key where "toLowerCase r = (path @ [c]) @ key"
      using preorder_sound [OF wf r(1)] by blast
    ultimately have "c = c'" by simp
    then have "c \<in> fst ` set cs" using r(2) by force
    then show False using Cons.prems(1) x by simp
  qed
  then show ?case using rest here x by simp
qed

lemma distinct_preorder: "wf_node path node \<Longrightarrow> distinct (preorder node)"
proof (induction path node rule: wf_node.induct)
  case (1 path cs e w)
  have "\<forall>(c, ch) \<in> set cs. wf_node (path @ [c]) ch \<and> distinct (preorder ch)"
    using "1.IH" "1.prems" by auto
  then have below: "distinct (preorder_children cs)"
    using "1.prems" by (intro distinct_preorder_children [of cs path]) simp_all
  show ?case
  proof (cases "\<exists>wd. w = Some wd \<and> e \<and> wd \<noteq> []")
    case True
    then obtain wd where wd: "w = Some wd" "e" "wd \<noteq> []" by blast
    have "wd \<notin> set (preorder_children cs)"
    proof
      assume "wd \<in> set (preorder_children cs)"
      then obtain c ch where c: "(c, ch) \<in> set cs" "wd \<in> set (preorder ch)"
        by (auto simp: preorder_children_mem)
      have "wf_node (path @ [c]) ch" using "1.prems" c(1) by auto
      then obtain key where "toLowerCase wd = (path @ [c]) @ key"
        using preorder_sound c(2) by blast
      moreover have "toLowerCase wd = path" using "1.prems" wd by simp
      ultimately show False by simp
    qed
    then show ?thesis using wd below by simp
  next
    case False
    then show ?thesis using below by (auto split: option.splits)
  qed
qed

lemma in_take_preceding:
  "w \<in> set xs \<Longrightarrow> length (takeWhile (\<lambda>x. x \<noteq> w) xs) < k \<Longrightarrow> w \<in> set (take k xs)"
proof (induction xs arbitrary: k)
  case Nil
  then show ?case by simp
next
  case (Cons x xs)
  then show ?case by (cases k) (auto split: if_splits)
qed

text \<open>\<open>_countWords\<close> adds the number of terminal nodes to the count it is given.\<close>

lemma countWords_terminals:
  "Trie_countWords node count' = count' + int (terminals node)"
  "countWords_children cs count' = count' + int (terminals_children cs)"
  by (induction node count' and cs count' rule: Trie_countWords_countWords_children.induct)
     simp_all

lemma Trie_getSize_zero: "Trie_getSize t = 0"
  by (simp add: Trie_getSize_def)

section \<open>Rate limiter: the claims\<close>

text \<open>
  C3. Fixed-window semantics with the default parameters (window 60000 ms, limit 100).
  A call for key \<open>k\<close> at time \<open>now\<close> admits and stores \<open>{count: 1, resetTime: now + 60000}\<close>
  when \<open>k\<close> has no record or \<open>now\<close> is past the stored \<open>resetTime\<close>; otherwise it admits
  and increments the count when the count is below 100; otherwise it rejects and leaves
  the map as it is. Consequently, starting where \<open>k\<close> has no live window, 100 calls at the
  same instant are all admitted, a 101st call at any time up to the window's end is
  rejected, and a call after the window's end is admitted and resets the count to 1.
\<close>

theorem checkRateLimit_fixed_window:
  "(rc k = None \<or> (\<exists>r. rc k = Some r \<and> now > resetTime r) \<longrightarrow>
      checkRateLimit k now rc = (True, rc(k \<mapsto> \<lparr>count = 1, resetTime = now + 60000\<rparr>)))
   \<and> (\<forall>r. rc k = Some r \<and> \<not> now > resetTime r \<and> count r < 100 \<longrightarrow>
      checkRateLimit k now rc = (True, rc(k \<mapsto> r\<lparr>count := count r + 1\<rparr>)))
   \<and> (\<forall>r. rc k = Some r \<and> \<not> now > resetTime r \<and> \<not> count r < 100 \<longrightarrow>
      checkRateLimit k now rc = (False, rc))
   \<and> (rc k = None \<or> (\<exists>r. rc k = Some r \<and> now > resetTime r) \<longrightarrow>
      (\<forall>rc100. rc100 = snd (run_calls (replicate 100 (k, now)) rc) \<longrightarrow>
         fst (run_calls (replicate 100 (k, now)) rc) = replicate 100 True
       \<and> (\<forall>t. t \<le> now + 60000 \<longrightarrow> checkRateLimit k t rc100 = (False, rc100))
       \<and> (\<forall>t. t > now + 60000 \<longrightarrow>
            checkRateLimit k t rc100 =
              (True, rc100(k \<mapsto> \<lparr>count = 1, resetTime = t + 60000\<rparr>)))))"
proof (intro conjI impI allI)
  assume "rc k = None \<or> (\<exists>r. rc k = Some r \<and> now > resetTime r)"
  then show "checkRateLimit k now rc = (True, rc(k \<mapsto> \<lparr>count = 1, resetTime = now + 60000\<rparr>))"
    using checkRateLimit_fresh checkRateLimit_expired by blast
next
  fix r
  assume "rc k = Some r \<and> \<not> now > resetTime r \<and> count r < 100"
  then show "checkRateLimit k now rc = (True, rc(k \<mapsto> r\<lparr>count := count r + 1\<rparr>))"
    by (simp add: checkRateLimit_increment)
next
  fix r
  assume "rc k = Some r \<and> \<not> now > resetTime r \<and> \<not> count r < 100"
  then show "checkRateLimit k now rc = (False, rc)"
    by (simp add: checkRateLimit_reject)
next
  fix rc100
  assume start: "rc k = None \<or> (\<exists>r. rc k = Some r \<and> now > resetTime r)"
  have run: "run_calls (replicate 100 (k, now)) rc =
      (replicate 100 True, rc(k \<mapsto> \<lparr>count = 100, resetTime = now + 60000\<rparr>))"
    using run_calls_same_instant [of rc k now 99] start by simp
  show "fst (run_calls (replicate 100 (k, now)) rc) = replicate 100 True"
    using run by simp
  assume "rc100 = snd (run_calls (replicate 100 (k, now)) rc)"
  then have rc100: "rc100 = rc(k \<mapsto> \<lparr>count = 100, resetTime = now + 60000\<rparr>)"
    using run by simp
  {
    fix t :: int
    assume "t \<le> now + 60000"
    then show "checkRateLimit k t rc100 = (False, rc100)"
      using rc100 by (simp add: checkRateLimit_def MAX_REQUESTS_PER_WINDOW_def)
  next
    fix t :: int
    assume "t > now + 60000"
    then show "checkRateLimit k t rc100 =
        (True, rc100(k \<mapsto> \<lparr>count = 1, resetTime = t + 60000\<rparr>))"
      using rc100 by (simp add: checkRateLimit_def RATE_LIMIT_WINDOW_MS_def)
  }
qed

theorem checkRateLimit_fixed_window_witness:
  "checkRateLimit ''10.0.0.1'' 1000 Map.empty =
     (True, [''10.0.0.1'' \<mapsto> \<lparr>count = 1, resetTime = 61000\<rparr>])
   \<and> checkRateLimit ''10.0.0.1'' 2001 [''10.0.0.1'' \<mapsto> \<lparr>count = 100, resetTime = 2000\<rparr>] =
     (True, [''10.0.0.1'' \<mapsto> \<lparr>count = 1, resetTime = 62001\<rparr>])
   \<and> checkRateLimit ''10.0.0.1'' 1500 [''10.0.0.1'' \<mapsto> \<lparr>count = 5, resetTime = 2000\<rparr>] =
     (True, [''10.0.0.1'' \<mapsto> \<lparr>count = 6, resetTime = 2000\<rparr>])
   \<and> checkRateLimit ''10.0.0.1'' 2000 [''10.0.0.1'' \<mapsto> \<lparr>count = 100, resetTime = 2000\<rparr>] =
     (False, [''10.0.0.1'' \<mapsto> \<lparr>count = 100, resetTime = 2000\<rparr>])
   \<and> fst (run_calls (replicate 100 (''10.0.0.1'', 1000)) Map.empty) = replicate 100 True
   \<and> fst (checkRateLimit ''10.0.0.1'' 61000
        (snd (run_calls (replicate 100 (''10.0.0.1'', 1000)) Map.empty))) = False
   \<and> fst (checkRateLimit ''10.0.0.1'' 61001
        (snd (run_calls (replicate 100 (''10.0.0.1'', 1000)) Map.empty))) = True
   \<and> map_option count (snd (checkRateLimit ''10.0.0.1'' 61001
        (snd (run_calls (replicate 100 (''10.0.0.1'', 1000)) Map.empty))) ''10.0.0.1'') = Some 1"
proof -
  let ?k = "''10.0.0.1''"
  let ?full = "[?k \<mapsto> \<lparr>count = 100, resetTime = 2000\<rparr>]"
  let ?some = "[?k \<mapsto> \<lparr>count = 5, resetTime = 2000\<rparr>]"
  note fresh = checkRateLimit_fixed_window [of Map.empty ?k 1000]
  have c1: "checkRateLimit ?k 1000 Map.empty = (True, [?k \<mapsto> \<lparr>count = 1, resetTime = 61000\<rparr>])"
    using fresh by simp
  have c2: "checkRateLimit ?k 2001 ?full = (True, [?k \<mapsto> \<lparr>count = 1, resetTime = 62001\<rparr>])"
    using checkRateLimit_fixed_window [of ?full ?k 2001] by simp
  have c3: "checkRateLimit ?k 1500 ?some = (True, [?k \<mapsto> \<lparr>count = 6, resetTime = 2000\<rparr>])"
    using checkRateLimit_fixed_window [of ?some ?k 1500] by simp
  have c4: "checkRateLimit ?k 2000 ?full = (False, ?full)"
    using checkRateLimit_fixed_window [of ?full ?k 2000] by simp
  let ?rc100 = "snd (run_calls (replicate 100 (?k, 1000)) Map.empty)"
  have c5: "fst (run_calls (replicate 100 (?k, 1000)) Map.empty) = replicate 100 True"
    using fresh by blast
  have c6: "checkRateLimit ?k 61000 ?rc100 = (False, ?rc100)"
    using fresh by simp
  have c7: "checkRateLimit ?k 61001 ?rc100 =
      (True, ?rc100(?k \<mapsto> \<lparr>count = 1, resetTime = 61001 + 60000\<rparr>))"
    using fresh by simp
  show ?thesis
    using c1 c2 c3 c4 c5 by (simp add: c6 c7)
qed

text \<open>
  C8. Keys are independent. For distinct keys \<open>a\<close> and \<open>b\<close>, any sequence of calls for
  \<open>a\<close> (at any times \<open>ts\<close>) leaves the record of \<open>b\<close> as it was, and a call for \<open>b\<close>
  afterwards is answered as it would have been without them. More generally, in any
  interleaved sequence of calls, the answers given to \<open>b\<close> are the ones it would get if
  every call for \<open>a\<close> were removed from the sequence.
\<close>

theorem rate_limit_keys_independent:
  "a \<noteq> b \<Longrightarrow>
     snd (run_calls (map (Pair a) ts) rc) b = rc b
   \<and> fst (checkRateLimit b now (snd (run_calls (map (Pair a) ts) rc))) =
       fst (checkRateLimit b now rc)
   \<and> answers_for b calls rc = answers_for b (filter (\<lambda>(k, t). k \<noteq> a) calls) rc"
proof (intro conjI)
  assume ab: "a \<noteq> b"
  show same: "snd (run_calls (map (Pair a) ts) rc) b = rc b"
    using ab by (rule run_calls_other_key)
  show "fst (checkRateLimit b now (snd (run_calls (map (Pair a) ts) rc))) =
        fst (checkRateLimit b now rc)"
    using same by (rule checkRateLimit_depends_on_own_record)
  show "answers_for b calls rc = answers_for b (filter (\<lambda>(k, t). k \<noteq> a) calls) rc"
    using ab by (rule answers_for_without) simp
qed

theorem rate_limit_keys_independent_witness:
  "''10.0.0.1'' \<noteq> ''10.0.0.2''
   \<and> snd (run_calls (map (Pair ''10.0.0.1'') (replicate 101 5)) Map.empty) ''10.0.0.2'' = None
   \<and> fst (checkRateLimit ''10.0.0.2'' 5
        (snd (run_calls (map (Pair ''10.0.0.1'') (replicate 101 5)) Map.empty))) = True
   \<and> answers_for ''10.0.0.2'' [(''10.0.0.1'', 1), (''10.0.0.2'', 2), (''10.0.0.1'', 3)] Map.empty
       = [True]"
proof -
  have ne: "''10.0.0.1'' \<noteq> ''10.0.0.2''" by simp
  note ind = rate_limit_keys_independent [OF ne, of "replicate 101 5" Map.empty 5
      "[(''10.0.0.1'', 1), (''10.0.0.2'', 2), (''10.0.0.1'', 3)]"]
  have "fst (checkRateLimit ''10.0.0.2'' 5 Map.empty) = True"
    by (simp add: checkRateLimit_def)
  moreover have "answers_for ''10.0.0.2'' [(''10.0.0.2'', 2)] Map.empty = [True]"
    by (simp add: checkRateLimit_def)
  ultimately show ?thesis
    using ind by simp
qed

text \<open>
  C10. A rejection leaves the map as it is: whenever \<open>checkRateLimit\<close> answers \<open>false\<close>,
  the map after the call is the map before it. Consequently, after any sequence of calls
  from the empty map, no stored count is above \<open>MAX_REQUESTS_PER_WINDOW\<close>.
\<close>

theorem checkRateLimit_rejection_preserves_state:
  "(fst (checkRateLimit k now rc) = False \<longrightarrow> snd (checkRateLimit k now rc) = rc)
   \<and> (\<forall>k' r. snd (run_calls calls Map.empty) k' = Some r \<longrightarrow>
         count r \<le> MAX_REQUESTS_PER_WINDOW)"
proof
  show "fst (checkRateLimit k now rc) = False \<longrightarrow> snd (checkRateLimit k now rc) = rc"
    by (simp add: checkRateLimit_def split: option.splits)
  have "counts_bounded Map.empty"
    by (simp add: counts_bounded_def)
  then have "counts_bounded (snd (run_calls calls Map.empty))"
    by (rule counts_bounded_run_calls)
  then show "\<forall>k' r. snd (run_calls calls Map.empty) k' = Some r \<longrightarrow>
      count r \<le> MAX_REQUESTS_PER_WINDOW"
    by (simp add: counts_bounded_def)
qed

theorem checkRateLimit_rejection_preserves_state_witness:
  "fst (checkRateLimit ''k'' 7 [''k'' \<mapsto> \<lparr>count = 100, resetTime = 9\<rparr>]) = False
   \<and> snd (checkRateLimit ''k'' 7 [''k'' \<mapsto> \<lparr>count = 100, resetTime = 9\<rparr>]) =
       [''k'' \<mapsto> \<lparr>count = 100, resetTime = 9\<rparr>]
   \<and> snd (run_calls [(''k'', 1), (''k'', 2)] Map.empty) ''k'' = Some \<lparr>count = 2, resetTime = 60001\<rparr>
   \<and> count \<lparr>count = 2, resetTime = 60001\<rparr> \<le> MAX_REQUESTS_PER_WINDOW"
proof -
  have rej: "fst (checkRateLimit ''k'' 7 [''k'' \<mapsto> \<lparr>count = 100, resetTime = 9\<rparr>]) = False"
    by (simp add: checkRateLimit_def MAX_REQUESTS_PER_WINDOW_def)
  have run: "snd (run_calls [(''k'', 1), (''k'', 2)] Map.empty) ''k'' =
      Some \<lparr>count = 2, resetTime = 60001\<rparr>"
    by (simp add: checkRateLimit_def MAX_REQUESTS_PER_WINDOW_def RATE_LIMIT_WINDOW_MS_def)
  show ?thesis
    using rej run
      checkRateLimit_rejection_preserves_state [of "''k''" 7
        "[''k'' \<mapsto> \<lparr>count = 100, resetTime = 9\<rparr>]" "[(''k'', 1), (''k'', 2)]"]
    by blast
qed


section \<open>Client key: the claims\<close>

text \<open>
  C9, as amended. When the forwarded-address header value is present and not empty,
  \<open>getClientIP\<close> returns the part before the first comma with the white space at both
  ends removed (\<open>"1.2.3.4, 5.6.7.8"\<close> gives \<open>"1.2.3.4"\<close>); when the header is absent,
  or present with the empty string as its value, it returns \<open>"unknown"\<close>. It never
  fails.
\<close>

theorem getClientIP_extraction:
  "(f \<noteq> [] \<longrightarrow> getClientIP (Some f) = Inr (String_trim (takeWhile (\<lambda>c. c \<noteq> CHR '','') f)))
   \<and> getClientIP (Some []) = Inr ''unknown''
   \<and> getClientIP None = Inr ''unknown''
   \<and> getClientIP (Some ''1.2.3.4, 5.6.7.8'') = Inr ''1.2.3.4''"
proof (intro conjI impI)
  assume "f \<noteq> []"
  moreover obtain pieces where
    "String_split CHR '','' f = takeWhile (\<lambda>c. c \<noteq> CHR '','') f # pieces"
    using String_split_first by blast
  ultimately show "getClientIP (Some f) = Inr (String_trim (takeWhile (\<lambda>c. c \<noteq> CHR '','') f))"
    by (simp add: getClientIP_def)
next
  show "getClientIP (Some []) = Inr ''unknown''" by (simp add: getClientIP_def)
  show "getClientIP None = Inr ''unknown''" by (simp add: getClientIP_def)
  show "getClientIP (Some ''1.2.3.4, 5.6.7.8'') = Inr ''1.2.3.4''" by code_simp
qed

theorem getClientIP_extraction_witness:
  "'' 10.0.0.7 ,10.0.0.8'' \<noteq> []
   \<and> getClientIP (Some '' 10.0.0.7 ,10.0.0.8'') = Inr ''10.0.0.7''"
proof -
  have "String_trim (takeWhile (\<lambda>c. c \<noteq> CHR '','') '' 10.0.0.7 ,10.0.0.8'') = ''10.0.0.7''"
    by code_simp
  then show ?thesis
    using getClientIP_extraction [of "'' 10.0.0.7 ,10.0.0.8''"] by simp
qed

text \<open>
  The claim as first stated promises the trimmed first entry for every header value that
  is present. The empty value is present, its trimmed first entry is the empty string,
  and the function answers \<open>"unknown"\<close>.
\<close>

theorem getClientIP_empty_header_counterexample:
  "getClientIP (Some []) \<noteq> Inr (String_trim (takeWhile (\<lambda>c. c \<noteq> CHR '','') []))"
  by (simp add: getClientIP_def String_trim_def)

section \<open>Prefix index: the claims\<close>

text \<open>
  C1, as amended. The last insert decides the original casing: for every trie and every
  non-empty word \<open>w\<close>, after \<open>insert(w)\<close> the form stored for the lower-case key of
  \<open>w\<close> is \<open>w\<close> itself, whether or not that key was terminal before. After inserting
  \<open>"Apple"\<close>, \<open>"APPLE"\<close> and \<open>"apple"\<close> into an empty trie, \<open>search("app")\<close> yields
  exactly one result, and that result is \<open>"apple"\<close>.
\<close>

theorem Trie_insert_last_wins:
  "(w \<noteq> [] \<longrightarrow> Trie_stored (Trie_insert w t) (toLowerCase w) = Some w)
   \<and> Trie_search ''app'' 100 (Trie_buildFromArray [''Apple'', ''APPLE'', ''apple''] Trie_new)
       = [''apple'']"
proof
  show "w \<noteq> [] \<longrightarrow> Trie_stored (Trie_insert w t) (toLowerCase w) = Some w"
    using descend_insert_path [of "toLowerCase w" w "root t"]
    by (auto simp: Trie_stored_def Trie_insert_def)
  show "Trie_search ''app'' 100 (Trie_buildFromArray [''Apple'', ''APPLE'', ''apple''] Trie_new)
       = [''apple'']"
    by code_simp
qed

theorem Trie_insert_last_wins_witness:
  "''APPLE'' \<noteq> []
   \<and> Trie_stored (Trie_insert ''Apple'' Trie_new) ''apple'' = Some ''Apple''
   \<and> Trie_stored (Trie_insert ''APPLE'' (Trie_insert ''Apple'' Trie_new)) ''apple'' = Some ''APPLE''"
proof -
  have low: "toLowerCase ''APPLE'' = ''apple''" "toLowerCase ''Apple'' = ''apple''"
    by code_simp+
  show ?thesis
    using Trie_insert_last_wins [of "''APPLE''" "Trie_insert ''Apple'' Trie_new"]
      Trie_insert_last_wins [of "''Apple''" Trie_new] low
    by simp
qed

text \<open>
  The claim as first stated keeps the first casing. After \<open>"Apple"\<close> the key
  \<open>apple\<close> stores \<open>"Apple"\<close>; inserting \<open>"APPLE"\<close> replaces it, and the search
  after the three inserts does not return \<open>"Apple"\<close>.
\<close>

theorem Trie_insert_first_wins_counterexample:
  "Trie_stored (Trie_insert ''Apple'' Trie_new) ''apple'' = Some ''Apple''
   \<and> Trie_stored (Trie_insert ''APPLE'' (Trie_insert ''Apple'' Trie_new)) ''apple'' \<noteq> Some ''Apple''
   \<and> Trie_search ''app'' 100 (Trie_buildFromArray [''Apple'', ''APPLE'', ''apple''] Trie_new)
       \<noteq> [''Apple'']"
  by code_simp

text \<open>
  C2. \<open>getSize()\<close> is claimed to return the number of terminal nodes. On the trie that
  holds the one word \<open>"apple"\<close> it returns 0, while \<open>_countWords\<close> from the root,
  started at 0, returns 1.
\<close>

theorem Trie_getSize_returns_zero:
  "Trie_getSize (Trie_insert ''apple'' Trie_new) = 0
   \<and> Trie_countWords (root (Trie_insert ''apple'' Trie_new)) 0 = 1"
  by code_simp

text \<open>
  C4. Postconditions of \<open>search\<close>. For every trie built by inserts from the empty trie,
  every prefix \<open>p\<close> and every \<open>n \<ge> 0\<close>: \<open>search(p, n)\<close> returns at most \<open>n\<close>
  results; the lower-case form of every result starts with the lower-case form of \<open>p\<close>;
  no string is returned twice; and every result is the form that the trie stores for its
  lower-case key.
\<close>

theorem Trie_search_postconditions:
  assumes t: "t = Trie_buildFromArray ws Trie_new" and n: "0 \<le> n"
  shows "int (length (Trie_search p n t)) \<le> n
    \<and> (\<forall>r \<in> set (Trie_search p n t). prefix (toLowerCase p) (toLowerCase r))
    \<and> distinct (Trie_search p n t)
    \<and> (\<forall>r \<in> set (Trie_search p n t). Trie_stored t (toLowerCase r) = Some r)"
proof (cases "p = [] \<or> descend (toLowerCase p) (root t) = None")
  case True
  then have "Trie_search p n t = []" by (auto simp: Trie_search_take)
  then show ?thesis using n by simp
next
  case False
  then obtain node where node: "descend (toLowerCase p) (root t) = Some node" by auto
  have res: "Trie_search p n t = take (nat n) (preorder node)"
    using False node by (simp add: Trie_search_take)
  have "wf_node [] (root t)" unfolding t by (rule wf_built)
  then have wf: "wf_node (toLowerCase p) node"
    using wf_descend [of "[]" "root t" "toLowerCase p" node] node by simp
  have len: "int (length (Trie_search p n t)) \<le> n"
    using n res by simp
  have dist: "distinct (Trie_search p n t)"
    using distinct_preorder [OF wf] res by simp
  have each: "prefix (toLowerCase p) (toLowerCase r) \<and> Trie_stored t (toLowerCase r) = Some r"
    if "r \<in> set (Trie_search p n t)" for r
  proof -
    from that res have "r \<in> set (preorder node)" by (auto dest: in_set_takeD)
    then obtain key m where key: "toLowerCase r = toLowerCase p @ key"
      "descend key node = Some m" "isEndOfWord m" "word m = Some r"
      using preorder_sound [OF wf] by blast
    have "descend (toLowerCase r) (root t) = Some m"
      using key(1,2) node by (simp add: descend_append)
    then show ?thesis using key by (simp add: Trie_stored_def)
  qed
  show ?thesis using len dist each by blast
qed

theorem Trie_search_postconditions_witness:
  "(0::int) \<le> 2
   \<and> Trie_search ''app'' 2
       (Trie_buildFromArray [''Apple'', ''application'', ''apply'', ''app'', ''orange''] Trie_new)
       = [''app'', ''Apple'']
   \<and> int (length (Trie_search ''app'' 2
       (Trie_buildFromArray [''Apple'', ''application'', ''apply'', ''app'', ''orange''] Trie_new)))
       \<le> 2
   \<and> prefix (toLowerCase ''app'') (toLowerCase ''Apple'')
   \<and> distinct (Trie_search ''app'' 2
       (Trie_buildFromArray [''Apple'', ''application'', ''apply'', ''app'', ''orange''] Trie_new))
   \<and> Trie_stored
       (Trie_buildFromArray [''Apple'', ''application'', ''apply'', ''app'', ''orange''] Trie_new)
       (toLowerCase ''Apple'') = Some ''Apple''"
proof -
  let ?ws = "[''Apple'', ''application'', ''apply'', ''app'', ''orange'']"
  let ?t = "Trie_buildFromArray ?ws Trie_new"
  have n: "(0::int) \<le> 2" by simp
  have run: "Trie_search ''app'' 2 ?t = [''app'', ''Apple'']"
    by code_simp
  note post = Trie_search_postconditions [OF refl n, of "''app''" ?ws]
  have "prefix (toLowerCase ''app'') (toLowerCase ''Apple'')
      \<and> Trie_stored ?t (toLowerCase ''Apple'') = Some ''Apple''"
    using post run by simp
  moreover have "int (length (Trie_search ''app'' 2 ?t)) \<le> 2 \<and> distinct (Trie_search ''app'' 2 ?t)"
    using post by blast
  ultimately show ?thesis
    using run by simp
qed

text \<open>
  C5. Completeness of \<open>search\<close>. For every trie, every non-empty prefix \<open>p\<close> and every
  word \<open>w\<close> stored in the trie under its lower-case key: if the lower-case form of \<open>w\<close>
  starts with the lower-case form of \<open>p\<close>, then \<open>w\<close> is an entry of the pre-order
  traversal from the node of \<open>p\<close>, and whenever fewer than \<open>maxResults\<close> entries come
  before it there, \<open>w\<close> is among the results of \<open>search(p, maxResults)\<close>.
\<close>

theorem Trie_search_complete:
  assumes p: "p \<noteq> []"
    and stored: "Trie_stored t (toLowerCase w) = Some w"
    and starts: "prefix (toLowerCase p) (toLowerCase w)"
  shows "w \<in> set (traversal t p)
     \<and> (int (preceding (traversal t p) w) < maxResults \<longrightarrow>
          w \<in> set (Trie_search p maxResults t))"
proof -
  from starts obtain rest where rest: "toLowerCase w = toLowerCase p @ rest"
    by (auto simp: prefix_def)
  from stored obtain n where n: "descend (toLowerCase w) (root t) = Some n"
    "isEndOfWord n" "word n = Some w"
    by (auto simp: Trie_stored_def split: option.splits if_splits)
  from n(1) rest obtain node where node: "descend (toLowerCase p) (root t) = Some node"
    "descend rest node = Some n"
    by (auto simp: descend_append split: option.splits)
  have tr: "traversal t p = preorder node"
    using node(1) by (simp add: traversal_def)
  have "w \<noteq> []" using rest p by auto
  then have mem: "w \<in> set (preorder node)"
    using node(2) n(2,3) by (intro preorder_complete)
  have "w \<in> set (Trie_search p maxResults t)" if "int (preceding (preorder node) w) < maxResults"
  proof -
    from that have "length (takeWhile (\<lambda>x. x \<noteq> w) (preorder node)) < nat maxResults"
      by (simp add: preceding_def)
    then have "w \<in> set (take (nat maxResults) (preorder node))"
      using mem by (intro in_take_preceding)
    then show ?thesis using p node(1) by (simp add: Trie_search_take)
  qed
  then show ?thesis using tr mem by simp
qed

theorem Trie_search_complete_witness:
  "''ca'' \<noteq> []
   \<and> Trie_stored (Trie_buildFromArray [''cat'', ''car'', ''card'', ''dog''] Trie_new)
       (toLowerCase ''card'') = Some ''card''
   \<and> prefix (toLowerCase ''ca'') (toLowerCase ''card'')
   \<and> preceding (traversal (Trie_buildFromArray [''cat'', ''car'', ''card'', ''dog''] Trie_new) ''ca'')
       ''card'' = 2
   \<and> ''card'' \<in> set (Trie_search ''ca'' 3
        (Trie_buildFromArray [''cat'', ''car'', ''card'', ''dog''] Trie_new))"
proof -
  let ?t = "Trie_buildFromArray [''cat'', ''car'', ''card'', ''dog''] Trie_new"
  have p: "''ca'' \<noteq> []" by simp
  have stored: "Trie_stored ?t (toLowerCase ''card'') = Some ''card''" by code_simp
  have starts: "prefix (toLowerCase ''ca'') (toLowerCase ''card'')" by code_simp
  have before: "preceding (traversal ?t ''ca'') ''card'' = 2" by code_simp
  show ?thesis
    using Trie_search_complete [OF p stored starts, of 3] p stored starts before by simp
qed

text \<open>
  C6. Insert, then contains, whatever the casing: for every trie and every non-empty word
  \<open>w\<close>, after \<open>insert(w)\<close> the call \<open>contains(c)\<close> is true for every string \<open>c\<close>
  with the same lower-case form as \<open>w\<close>.
\<close>

theorem Trie_insert_then_contains:
  assumes "w \<noteq> []" and "toLowerCase c = toLowerCase w"
  shows "Trie_contains c (Trie_insert w t)"
proof -
  have "c \<noteq> []" using assms by auto
  moreover obtain n where "descend (toLowerCase w) (insert_path (toLowerCase w) w (root t)) = Some n"
    "isEndOfWord n"
    using descend_insert_path by blast
  ultimately show ?thesis
    using assms by (simp add: Trie_contains_def Trie_insert_def)
qed

theorem Trie_insert_then_contains_witness:
  "''Apple'' \<noteq> [] \<and> toLowerCase ''aPPLE'' = toLowerCase ''Apple''
   \<and> Trie_contains ''aPPLE'' (Trie_insert ''Apple'' Trie_new)"
proof -
  have w: "''Apple'' \<noteq> []" by simp
  have same: "toLowerCase ''aPPLE'' = toLowerCase ''Apple''" by code_simp
  show ?thesis
    using Trie_insert_then_contains [OF w same, of Trie_new] w same by simp
qed

text \<open>
  C7. Empty input matches nothing and raises nothing: for every trie and every \<open>n\<close>,
  \<open>search("", n)\<close> is the empty sequence, \<open>contains("")\<close> is false, and \<open>insert("")\<close>
  leaves the trie as it is. The three operations are total functions without an error
  result, as the source has no \<open>throw\<close> on these paths.
\<close>

theorem Trie_empty_input:
  "Trie_search [] n t = [] \<and> Trie_contains [] t = False \<and> Trie_insert [] t = t"
  by (simp add: Trie_search_def Trie_contains_def Trie_insert_def)

theorem Trie_empty_input_witness:
  "Trie_search [] 100 (Trie_buildFromArray [''cat'', ''dog''] Trie_new) = []
   \<and> Trie_contains [] (Trie_buildFromArray [''cat'', ''dog''] Trie_new) = False
   \<and> Trie_insert [] (Trie_buildFromArray [''cat'', ''dog''] Trie_new) =
       Trie_buildFromArray [''cat'', ''dog''] Trie_new"
  using Trie_empty_input [of 100 "Trie_buildFromArray [''cat'', ''dog''] Trie_new"] .

end
